theory Spec2Isabelle
  imports Main
begin

unbundle bit_operations_syntax

section \<open>Routing definitions of paicorelib (routing_defs.py)\<close>

text \<open>
  Python integers are unbounded: they are \<open>int\<close> here, with the bit operations of
  two's complement (\<open>XOR\<close>, \<open>OR\<close>, \<open>AND\<close>, \<open>push_bit\<close> for \<open><<\<close> and
  \<open>drop_bit\<close> for \<open>>>\<close>). Every \<open>raise\<close> of the source is an \<open>Inl\<close> of the
  result; \<open>IndexError\<close> and \<open>ValueError\<close> are what Python itself raises on an
  index out of range and on an enum value that does not exist.
\<close>

datatype py_error = TypeError | AttributeError | IndexError | ValueError | ZeroDivisionError

subsection \<open>RoutingLevel\<close>

datatype RoutingLevel = L0 | L1 | L2 | L3 | L4 | L5

text \<open>\<open>RoutingLevel\<close> is an \<open>IntEnum\<close>: the value of a member.\<close>

fun level_value :: "RoutingLevel \<Rightarrow> int" where
  "level_value L0 = 0"
| "level_value L1 = 1"
| "level_value L2 = 2"
| "level_value L3 = 3"
| "level_value L4 = 4"
| "level_value L5 = 5"

text \<open>The call \<open>RoutingLevel(n)\<close>: the member of value \<open>n\<close>, or \<open>ValueError\<close>.\<close>

definition RoutingLevel_of :: "int \<Rightarrow> py_error + RoutingLevel" where
  "RoutingLevel_of n =
     (if n = 0 then Inr L0 else if n = 1 then Inr L1 else if n = 2 then Inr L2
      else if n = 3 then Inr L3 else if n = 4 then Inr L4 else if n = 5 then Inr L5
      else Inl ValueError)"

subsection \<open>RoutingDirection\<close>

datatype RoutingDirection = X0Y0 | X0Y1 | X1Y0 | X1Y1 | ANY

text \<open>The \<open>value\<close> of a member: the pair of its quadrant bits, \<open>(-1, -1)\<close> for \<open>ANY\<close>.\<close>

fun direction_value :: "RoutingDirection \<Rightarrow> int \<times> int" where
  "direction_value X0Y0 = (0, 0)"
| "direction_value X0Y1 = (0, 1)"
| "direction_value X1Y0 = (1, 0)"
| "direction_value X1Y1 = (1, 1)"
| "direction_value ANY = (-1, -1)"

definition to_index :: "RoutingDirection \<Rightarrow> py_error + int" where
  "to_index self =
     (if self = ANY then Inl TypeError
      else (let (x, y) = direction_value self in Inr (push_bit 1 x + y)))"

subsection \<open>RoutingCost\<close>

text \<open>A \<open>NamedTuple\<close>: a positional constructor with named fields, read by index too.\<close>

datatype RoutingCost =
  RoutingCost (n_L0: int) (n_L1: int) (n_L2: int) (n_L3: int) (n_L4: int)

definition cost_tuple :: "RoutingCost \<Rightarrow> int list" where
  "cost_tuple self = [n_L0 self, n_L1 self, n_L2 self, n_L3 self, n_L4 self]"

text \<open>
  The loop of \<open>get_routing_level\<close> over the indices still to visit; the indices come
  from \<open>reversed(range(5))\<close>, so \<open>self[i]\<close> is always in range.
\<close>

fun routing_level_scan :: "RoutingCost \<Rightarrow> nat list \<Rightarrow> py_error + RoutingLevel" where
  "routing_level_scan self [] = Inr L1"
| "routing_level_scan self (i # rest) =
     (if cost_tuple self ! i > 1 then RoutingLevel_of (int i + 1)
      else routing_level_scan self rest)"

definition get_routing_level :: "RoutingCost \<Rightarrow> py_error + RoutingLevel" where
  "get_routing_level self = routing_level_scan self (rev [0..<5])"

subsection \<open>Coord and ReplicationId\<close>

text \<open>
  Modelled from the spec: the class \<open>Coord\<close> of the module \<open>coordinate\<close>, which
  the source imports and which is not part of it. The spec gives it as an absolute 2D
  mesh coordinate \<open>(x, y)\<close> of integers with bitwise operations.
\<close>

datatype Coord = Coord (coord_x: int) (coord_y: int)

text \<open>
  Modelled from the spec: the class \<open>ReplicationId\<close> of the module \<open>coordinate\<close>
  (\<open>RId\<close> in the source), a pair of bitmask integers \<open>(x, y)\<close>.
\<close>

datatype RId = RId (rid_x: int) (rid_y: int)

text \<open>
  Modelled from the spec: the operator \<open>^\<close> of \<open>Coord\<close>, absent with its class. A
  \<open>ReplicationId\<close> is made from the XOR of two \<open>Coord\<close>, axis by axis.
\<close>

definition coord_xor :: "Coord \<Rightarrow> Coord \<Rightarrow> RId" where
  "coord_xor a b = RId (coord_x a XOR coord_x b) (coord_y a XOR coord_y b)"

text \<open>
  Modelled from the spec: the operator \<open>|\<close> of \<open>ReplicationId\<close> (the source's
  \<open>rid |= ...\<close>), absent with its class: the bitwise OR, axis by axis.
\<close>

definition rid_or :: "RId \<Rightarrow> RId \<Rightarrow> RId" where
  "rid_or r s = RId (rid_x r OR rid_x s) (rid_y r OR rid_y s)"

subsection \<open>RoutingCoord\<close>

datatype RoutingCoord =
  RoutingCoord (dir_L4: RoutingDirection) (dir_L3: RoutingDirection)
    (dir_L2: RoutingDirection) (dir_L1: RoutingDirection) (dir_L0: RoutingDirection)

definition coord_tuple :: "RoutingCoord \<Rightarrow> RoutingDirection list" where
  "coord_tuple self = [dir_L4 self, dir_L3 self, dir_L2 self, dir_L1 self, dir_L0 self]"

text \<open>The loop of the property \<open>level\<close> over the indices still to visit.\<close>

fun level_scan :: "RoutingCoord \<Rightarrow> nat list \<Rightarrow> py_error + RoutingLevel" where
  "level_scan self [] = Inr L0"
| "level_scan self (i # rest) =
     (if coord_tuple self ! i = ANY then RoutingLevel_of (5 - int i)
      else level_scan self rest)"

definition level :: "RoutingCoord \<Rightarrow> py_error + RoutingLevel" where
  "level self = level_scan self [0..<length (coord_tuple self)]"

definition coordinate :: "RoutingCoord \<Rightarrow> py_error + Coord" where
  "coordinate self =
     (case level self of
        Inl e \<Rightarrow> Inl e
      | Inr l \<Rightarrow>
          if level_value l > level_value L0 then Inl AttributeError
          else
            (let x = push_bit 4 (fst (direction_value (dir_L4 self)))
                   + push_bit 3 (fst (direction_value (dir_L3 self)))
                   + push_bit 2 (fst (direction_value (dir_L2 self)))
                   + push_bit 1 (fst (direction_value (dir_L1 self)))
                   + fst (direction_value (dir_L0 self));
                 y = push_bit 4 (snd (direction_value (dir_L4 self)))
                   + push_bit 3 (snd (direction_value (dir_L3 self)))
                   + push_bit 2 (snd (direction_value (dir_L2 self)))
                   + push_bit 1 (snd (direction_value (dir_L1 self)))
                   + snd (direction_value (dir_L0 self))
             in Inr (Coord x y)))"

text \<open>
  The entry of a path at a level, as the spec indexes it: \<open>direction self 4\<close> is the
  L4 entry and \<open>direction self 0\<close> the L0 entry; and the two quadrant bits of a
  direction.
\<close>

definition direction :: "RoutingCoord \<Rightarrow> nat \<Rightarrow> RoutingDirection" where
  "direction self k = coord_tuple self ! (4 - k)"

definition x_bit :: "RoutingDirection \<Rightarrow> int" where
  "x_bit d = fst (direction_value d)"

definition y_bit :: "RoutingDirection \<Rightarrow> int" where
  "y_bit d = snd (direction_value d)"

subsection \<open>get_routing_consumption\<close>

text \<open>
  The \<open>while\<close> loop of \<open>n_L0_required\<close>, from the current \<open>n_L0_nodes\<close>. Nothing
  in its text bounds the number of rounds, so not returning is the value \<open>None\<close>.
\<close>

partial_function (option) n_L0_loop :: "int \<Rightarrow> int \<Rightarrow> int option" where
  [code]: "n_L0_loop n_core n_L0_nodes =
     (if n_L0_nodes < n_core then n_L0_loop n_core (push_bit 1 n_L0_nodes)
      else Some n_L0_nodes)"

definition n_L0_required :: "int \<Rightarrow> int option" where
  "n_L0_required n_core = n_L0_loop n_core 1"

text \<open>Python's \<open>//\<close>: floor division, \<open>ZeroDivisionError\<close> on a zero divisor.\<close>

definition py_floordiv :: "int \<Rightarrow> int \<Rightarrow> py_error + int" where
  "py_floordiv a b = (if b = 0 then Inl ZeroDivisionError else Inr (a div b))"

text \<open>
  The expression \<open>1 if n < n_sub_node else (n // n_sub_node)\<close>, which the source
  writes once for each of the levels 1 to 4.
\<close>

definition n_next :: "int \<Rightarrow> int \<Rightarrow> py_error + int" where
  "n_next n_sub_node n = (if n < n_sub_node then Inr 1 else py_floordiv n n_sub_node)"

text \<open>
  \<open>HwParams.N_SUB_ROUTING_NODE\<close> is a constant of the module \<open>hw_defs\<close>, which is
  not part of the source: it is the first parameter here. The locals \<open>n_L0\<close> to
  \<open>n_L4\<close> of the source are \<open>c0\<close> to \<open>c4\<close>, the field names being taken.
\<close>

definition get_routing_consumption :: "int \<Rightarrow> int \<Rightarrow> (py_error + RoutingCost) option" where
  "get_routing_consumption n_sub_node n_core =
     (case n_L0_required n_core of
        None \<Rightarrow> None
      | Some c0 \<Rightarrow> Some
          (case n_next n_sub_node c0 of Inl e \<Rightarrow> Inl e | Inr c1 \<Rightarrow>
          (case n_next n_sub_node c1 of Inl e \<Rightarrow> Inl e | Inr c2 \<Rightarrow>
          (case n_next n_sub_node c2 of Inl e \<Rightarrow> Inl e | Inr c3 \<Rightarrow>
          (case n_next n_sub_node c3 of Inl e \<Rightarrow> Inl e | Inr c4 \<Rightarrow>
           Inr (RoutingCost c0 c1 c2 c3 c4))))))"

subsection \<open>get_replication_id\<close>

definition get_replication_id :: "Coord list \<Rightarrow> py_error + RId" where
  "get_replication_id coords =
     (case coords of
        [] \<Rightarrow> Inl IndexError
      | base_coord # rest \<Rightarrow>
          Inr (foldl (\<lambda>rid coord. rid_or rid (coord_xor base_coord coord)) (RId 0 0) rest))"

text \<open>
  The mask as the spec words it: the bitwise OR, over the coordinates after the first,
  of the per-axis XOR of that coordinate with the base \<open>coords[0]\<close>.
\<close>

definition or_all :: "int list \<Rightarrow> int" where
  "or_all ms = foldr (OR) ms 0"

definition derive_replication_mask :: "Coord list \<Rightarrow> RId" where
  "derive_replication_mask coords =
     RId (or_all (map (\<lambda>c. coord_x c XOR coord_x (hd coords)) (tl coords)))
         (or_all (map (\<lambda>c. coord_y c XOR coord_y (hd coords)) (tl coords)))"

subsection \<open>get_multicast_cores\<close>

text \<open>
  The inner loop over a candidate set and the union that follows it: every candidate,
  and every candidate with bit \<open>lx\<close> flipped.
\<close>

definition flip_candidates :: "int set \<Rightarrow> nat \<Rightarrow> int set" where
  "flip_candidates core lx = core \<union> (\<lambda>v. v XOR push_bit lx 1) ` core"

text \<open>One round of the loop \<open>for lx in range(5)\<close>, on the pair \<open>(corex, corey)\<close>.\<close>

definition multicast_round :: "RId \<Rightarrow> int set \<times> int set \<Rightarrow> nat \<Rightarrow> int set \<times> int set" where
  "multicast_round rid s lx =
     (let corex = fst s; corey = snd s;
          corex = (if drop_bit lx (rid_x rid) AND 1 \<noteq> 0 then flip_candidates corex lx else corex);
          corey = (if drop_bit lx (rid_y rid) AND 1 \<noteq> 0 then flip_candidates corey lx else corey)
      in (corex, corey))"

definition get_multicast_cores :: "Coord \<Rightarrow> RId \<Rightarrow> Coord set" where
  "get_multicast_cores base_coord rid =
     (let s = foldl (multicast_round rid) ({coord_x base_coord}, {coord_y base_coord}) [0..<5];
          corex = fst s; corey = snd s
      in (\<Union>x\<in>corex. \<Union>y\<in>corey. {Coord x y}))"

text \<open>
  The candidate set of one axis as the spec words it: from \<open>{b}\<close>, for each bit
  position \<open>k\<close> in 0..4 that is set in the mask \<open>m\<close>, every candidate \<open>v\<close> adds
  \<open>v XOR (1 << k)\<close>.
\<close>

definition candidate_step :: "int \<Rightarrow> int set \<Rightarrow> nat \<Rightarrow> int set" where
  "candidate_step m S k = (if bit m k then S \<union> (\<lambda>v. v XOR 2 ^ k) ` S else S)"

definition candidates :: "int \<Rightarrow> int \<Rightarrow> int set" where
  "candidates b m = foldl (candidate_step m) {b} [0..<5]"

text \<open>
  An axis-aligned block of power-of-two sides: the coordinates \<open>(x, y)\<close> with
  \<open>x0 \<le> x < x0 + 2^a\<close> and \<open>y0 \<le> y < y0 + 2^b\<close>; it is aligned when \<open>2^a\<close>
  divides \<open>x0\<close> and \<open>2^b\<close> divides \<open>y0\<close>.
\<close>

definition block :: "int \<Rightarrow> int \<Rightarrow> nat \<Rightarrow> nat \<Rightarrow> Coord set" where
  "block x0 y0 a b = (\<Union>x\<in>{x0..<x0 + 2 ^ a}. \<Union>y\<in>{y0..<y0 + 2 ^ b}. {Coord x y})"

section \<open>Properties\<close>

subsection \<open>Ranges, levels and directions\<close>

lemma rev_range5: "rev [0..<5] = [4, 3, 2, 1, 0::nat]"
  by (simp add: upt_rec)

lemma range5: "[0..<5] = [0, 1, 2, 3, 4::nat]"
  by (simp add: upt_rec)

lemma less5_cases: "i < (5::nat) \<Longrightarrow> i = 0 \<or> i = 1 \<or> i = 2 \<or> i = 3 \<or> i = 4"
  by arith

lemma RoutingLevel_of_value:
  "0 \<le> n \<Longrightarrow> n \<le> 5 \<Longrightarrow> \<exists>l. RoutingLevel_of n = Inr l \<and> level_value l = n"
  by (auto simp: RoutingLevel_of_def)

lemma to_index_cases:
  "to_index X0Y0 = Inr 0" "to_index X0Y1 = Inr 1" "to_index X1Y0 = Inr 2"
  "to_index X1Y1 = Inr 3" "to_index ANY = Inl TypeError"
  by (simp_all add: to_index_def)

text \<open>
  Claim C9. \<open>to_index\<close> fails exactly on \<open>ANY\<close>, and there with the error the
  source raises; on each of the four quadrant directions \<open>(x, y)\<close> it returns the
  child-slot index \<open>(x << 1) + y\<close>, which lies in 0..3: X0Y0 gives 0, X0Y1 gives 1,
  X1Y0 gives 2 and X1Y1 gives 3.
\<close>

theorem to_index_spec:
  "((\<exists>e. to_index d = Inl e) \<longleftrightarrow> d = ANY) \<and>
   to_index ANY = Inl TypeError \<and>
   (d \<noteq> ANY \<longrightarrow>
      (\<exists>i. to_index d = Inr i \<and> i = push_bit 1 (x_bit d) + y_bit d \<and> 0 \<le> i \<and> i \<le> 3)) \<and>
   to_index X0Y0 = Inr 0 \<and> to_index X0Y1 = Inr 1 \<and>
   to_index X1Y0 = Inr 2 \<and> to_index X1Y1 = Inr 3"
  by (cases d) (simp_all add: to_index_cases x_bit_def y_bit_def)

theorem to_index_spec_witness:
  "X1Y0 \<noteq> ANY \<and> to_index X1Y0 = Inr (push_bit 1 (x_bit X1Y0) + y_bit X1Y0) \<and>
   push_bit 1 (x_bit X1Y0) + y_bit X1Y0 = 2"
  using to_index_spec [of X1Y0] by (simp add: x_bit_def y_bit_def)

subsection \<open>RoutingCost.get_routing_level\<close>

lemma routing_level_scan_hit:
  assumes "i < 5" "cost_tuple c ! i > 1" "\<forall>j. i < j \<and> j < 5 \<longrightarrow> cost_tuple c ! j \<le> 1"
  shows "get_routing_level c = RoutingLevel_of (int i + 1)"
proof -
  from assms(3) have le: "\<And>j. i < j \<Longrightarrow> j < 5 \<Longrightarrow> \<not> cost_tuple c ! j > 1"
    by (simp add: not_less)
  from less5_cases [OF assms(1)] show ?thesis
  proof (elim disjE)
    assume "i = 0" with assms(2) le [of 1] le [of 2] le [of 3] le [of 4] show ?thesis
      by (simp add: get_routing_level_def rev_range5)
  next
    assume "i = 1" with assms(2) le [of 2] le [of 3] le [of 4] show ?thesis
      by (simp add: get_routing_level_def rev_range5)
  next
    assume "i = 2" with assms(2) le [of 3] le [of 4] show ?thesis
      by (simp add: get_routing_level_def rev_range5)
  next
    assume "i = 3" with assms(2) le [of 4] show ?thesis
      by (simp add: get_routing_level_def rev_range5)
  next
    assume "i = 4" with assms(2) show ?thesis
      by (simp add: get_routing_level_def rev_range5)
  qed
qed

lemma routing_level_scan_miss:
  assumes "\<forall>j<5. cost_tuple c ! j \<le> 1"
  shows "get_routing_level c = Inr L1"
proof -
  from assms have "\<And>j. j < 5 \<Longrightarrow> \<not> cost_tuple c ! j > 1"
    by (simp add: not_less)
  from this [of 0] this [of 1] this [of 2] this [of 3] this [of 4] show ?thesis
    by (simp add: get_routing_level_def rev_range5)
qed

text \<open>
  Claim C6. \<open>get_routing_level\<close> returns \<open>RoutingLevel(i + 1)\<close> for the largest
  index \<open>i\<close> in 0..4 whose count exceeds 1 (no index above it has a count above 1),
  and \<open>L1\<close> when no count exceeds 1; it never fails. \<open>RoutingCost(1,1,1,1,1)\<close> gives
  \<open>L1\<close> and \<open>RoutingCost(8,2,1,1,1)\<close> gives \<open>L2\<close>. The counts may be any integers.
\<close>

theorem get_routing_level_spec:
  "(i < 5 \<and> cost_tuple c ! i > 1 \<and> (\<forall>j. i < j \<and> j < 5 \<longrightarrow> cost_tuple c ! j \<le> 1) \<longrightarrow>
      get_routing_level c = RoutingLevel_of (int i + 1) \<and>
      (\<exists>l. get_routing_level c = Inr l \<and> level_value l = int i + 1)) \<and>
   ((\<forall>j<5. cost_tuple c ! j \<le> 1) \<longrightarrow> get_routing_level c = Inr L1) \<and>
   get_routing_level (RoutingCost 1 1 1 1 1) = Inr L1 \<and>
   get_routing_level (RoutingCost 8 2 1 1 1) = Inr L2"
proof (intro conjI impI)
  assume h: "i < 5 \<and> cost_tuple c ! i > 1 \<and> (\<forall>j. i < j \<and> j < 5 \<longrightarrow> cost_tuple c ! j \<le> 1)"
  then show eq: "get_routing_level c = RoutingLevel_of (int i + 1)"
    by (simp add: routing_level_scan_hit)
  from h have "0 \<le> int i + 1" "int i + 1 \<le> 5" by simp_all
  from RoutingLevel_of_value [OF this] eq
  show "\<exists>l. get_routing_level c = Inr l \<and> level_value l = int i + 1" by simp
next
  assume "\<forall>j<5. cost_tuple c ! j \<le> 1"
  then show "get_routing_level c = Inr L1" by (rule routing_level_scan_miss)
next
  show "get_routing_level (RoutingCost 1 1 1 1 1) = Inr L1"
    by (simp add: get_routing_level_def rev_range5 cost_tuple_def)
next
  show "get_routing_level (RoutingCost 8 2 1 1 1) = Inr L2"
    by (simp add: get_routing_level_def rev_range5 cost_tuple_def RoutingLevel_of_def)
qed

theorem get_routing_level_spec_witness:
  "(2::nat) < 5 \<and> cost_tuple (RoutingCost 64 16 4 1 1) ! 2 > 1 \<and>
   cost_tuple (RoutingCost 64 16 4 1 1) ! 3 \<le> 1 \<and>
   cost_tuple (RoutingCost 64 16 4 1 1) ! 4 \<le> 1 \<and>
   get_routing_level (RoutingCost 64 16 4 1 1) = Inr L3"
proof -
  let ?c = "RoutingCost 64 16 4 1 1"
  have above: "\<forall>j. 2 < j \<and> j < 5 \<longrightarrow> cost_tuple ?c ! j \<le> 1"
  proof (intro allI impI)
    fix j :: nat assume "2 < j \<and> j < 5"
    then have "j = 3 \<or> j = 4" by arith
    then show "cost_tuple ?c ! j \<le> 1" by (auto simp: cost_tuple_def)
  qed
  have hyp: "(2::nat) < 5 \<and> cost_tuple ?c ! 2 > 1 \<and>
      (\<forall>j. 2 < j \<and> j < 5 \<longrightarrow> cost_tuple ?c ! j \<le> 1)"
    using above by (simp add: cost_tuple_def)
  from get_routing_level_spec [where i = 2 and c = ?c] hyp
  have "get_routing_level ?c = RoutingLevel_of (int 2 + 1)" by blast
  then show ?thesis by (simp add: RoutingLevel_of_def cost_tuple_def)
qed

subsection \<open>RoutingCoord.level and RoutingCoord.coordinate\<close>

lemma length_coord_tuple: "length (coord_tuple rc) = 5"
  by (simp add: coord_tuple_def)

lemma level_hit:
  assumes "i < 5" "coord_tuple rc ! i = ANY" "\<forall>j<i. coord_tuple rc ! j \<noteq> ANY"
  shows "level rc = RoutingLevel_of (5 - int i)"
proof -
  from assms(3) have ne: "\<And>j. j < i \<Longrightarrow> coord_tuple rc ! j \<noteq> ANY" by simp
  from less5_cases [OF assms(1)] show ?thesis
  proof (elim disjE)
    assume "i = 0" with assms(2) show ?thesis
      by (simp add: level_def length_coord_tuple range5)
  next
    assume "i = 1" with assms(2) ne [of 0] show ?thesis
      by (simp add: level_def length_coord_tuple range5)
  next
    assume "i = 2" with assms(2) ne [of 0] ne [of 1] show ?thesis
      by (simp add: level_def length_coord_tuple range5)
  next
    assume "i = 3" with assms(2) ne [of 0] ne [of 1] ne [of 2] show ?thesis
      by (simp add: level_def length_coord_tuple range5)
  next
    assume "i = 4" with assms(2) ne [of 0] ne [of 1] ne [of 2] ne [of 3] show ?thesis
      by (simp add: level_def length_coord_tuple range5)
  qed
qed

lemma level_miss:
  assumes "ANY \<notin> set (coord_tuple rc)"
  shows "level rc = Inr L0"
proof -
  have "\<And>j. j < 5 \<Longrightarrow> coord_tuple rc ! j \<noteq> ANY"
    using assms by (metis length_coord_tuple nth_mem)
  from this [of 0] this [of 1] this [of 2] this [of 3] this [of 4] show ?thesis
    by (simp add: level_def length_coord_tuple range5)
qed

lemma first_ANY:
  assumes "ANY \<in> set (coord_tuple rc)"
  shows "\<exists>i<5. coord_tuple rc ! i = ANY \<and> (\<forall>j<i. coord_tuple rc ! j \<noteq> ANY)"
proof -
  from assms obtain n where n: "n < 5" "coord_tuple rc ! n = ANY"
    by (auto simp: in_set_conv_nth length_coord_tuple)
  define i where "i = (LEAST m. coord_tuple rc ! m = ANY)"
  have "coord_tuple rc ! i = ANY" unfolding i_def using n(2) by (rule LeastI)
  moreover have "i \<le> n" unfolding i_def using n(2) by (rule Least_le)
  moreover have "\<forall>j<i. coord_tuple rc ! j \<noteq> ANY"
    unfolding i_def using not_less_Least by blast
  ultimately have "i < 5 \<and> coord_tuple rc ! i = ANY \<and> (\<forall>j<i. coord_tuple rc ! j \<noteq> ANY)"
    using n(1) by simp
  then show ?thesis by blast
qed

lemma level_above:
  assumes "ANY \<in> set (coord_tuple rc)"
  shows "\<exists>l. level rc = Inr l \<and> level_value l > level_value L0"
proof -
  from first_ANY [OF assms] obtain i where i: "i < 5" "coord_tuple rc ! i = ANY"
    "\<forall>j<i. coord_tuple rc ! j \<noteq> ANY" by blast
  then have eq: "level rc = RoutingLevel_of (5 - int i)" by (rule level_hit)
  from i(1) have "0 \<le> 5 - int i" "5 - int i \<le> 5" by simp_all
  from RoutingLevel_of_value [OF this] obtain l where
    "RoutingLevel_of (5 - int i) = Inr l" "level_value l = 5 - int i" by blast
  with eq i(1) show ?thesis by simp
qed

text \<open>
  Claim C5. For every path, \<open>level\<close> is \<open>RoutingLevel(5 - i)\<close> where \<open>i\<close> is the
  position, counted from 0 at the L4 entry, of the first entry equal to \<open>ANY\<close> (no
  entry before it is \<open>ANY\<close>); that level exists, so the call does not fail. When no
  entry is \<open>ANY\<close> the level is \<open>L0\<close>.
\<close>

theorem level_spec:
  "(i < 5 \<and> coord_tuple rc ! i = ANY \<and> (\<forall>j<i. coord_tuple rc ! j \<noteq> ANY) \<longrightarrow>
      level rc = RoutingLevel_of (5 - int i) \<and>
      (\<exists>l. level rc = Inr l \<and> level_value l = 5 - int i)) \<and>
   (ANY \<notin> set (coord_tuple rc) \<longrightarrow> level rc = Inr L0)"
proof (intro conjI impI)
  assume h: "i < 5 \<and> coord_tuple rc ! i = ANY \<and> (\<forall>j<i. coord_tuple rc ! j \<noteq> ANY)"
  then show eq: "level rc = RoutingLevel_of (5 - int i)" by (simp add: level_hit)
  from h have "0 \<le> 5 - int i" "5 - int i \<le> 5" by simp_all
  from RoutingLevel_of_value [OF this] eq
  show "\<exists>l. level rc = Inr l \<and> level_value l = 5 - int i" by simp
next
  assume "ANY \<notin> set (coord_tuple rc)"
  then show "level rc = Inr L0" by (rule level_miss)
qed

theorem level_spec_witness:
  "(2::nat) < 5 \<and> coord_tuple (RoutingCoord X1Y0 X0Y1 ANY X1Y1 ANY) ! 2 = ANY \<and>
   coord_tuple (RoutingCoord X1Y0 X0Y1 ANY X1Y1 ANY) ! 0 \<noteq> ANY \<and>
   coord_tuple (RoutingCoord X1Y0 X0Y1 ANY X1Y1 ANY) ! 1 \<noteq> ANY \<and>
   level (RoutingCoord X1Y0 X0Y1 ANY X1Y1 ANY) = Inr L3 \<and>
   ANY \<notin> set (coord_tuple (RoutingCoord X1Y0 X0Y1 X0Y0 X1Y1 X0Y0)) \<and>
   level (RoutingCoord X1Y0 X0Y1 X0Y0 X1Y1 X0Y0) = Inr L0"
proof -
  let ?rc = "RoutingCoord X1Y0 X0Y1 ANY X1Y1 ANY"
  let ?full = "RoutingCoord X1Y0 X0Y1 X0Y0 X1Y1 X0Y0"
  have before: "\<forall>j<2. coord_tuple ?rc ! j \<noteq> ANY"
  proof (intro allI impI)
    fix j :: nat assume "j < 2"
    then have "j = 0 \<or> j = 1" by arith
    then show "coord_tuple ?rc ! j \<noteq> ANY" by (auto simp: coord_tuple_def)
  qed
  have hyp: "(2::nat) < 5 \<and> coord_tuple ?rc ! 2 = ANY \<and> (\<forall>j<2. coord_tuple ?rc ! j \<noteq> ANY)"
    using before by (simp add: coord_tuple_def)
  from level_spec [where i = 2 and rc = ?rc] hyp
  have "level ?rc = RoutingLevel_of (5 - int 2)" by blast
  then have partial: "level ?rc = Inr L3" by (simp add: RoutingLevel_of_def)
  have no_any: "ANY \<notin> set (coord_tuple ?full)" by (simp add: coord_tuple_def)
  with level_spec [where rc = ?full] have "level ?full = Inr L0" by blast
  with partial no_any show ?thesis by (simp add: coord_tuple_def)
qed

lemma sum_lessThan5: "(\<Sum>k<5. f k) = f 0 + f 1 + f 2 + f 3 + (f (4::nat) :: int)"
  by (simp add: eval_nat_numeral lessThan_Suc)

lemma direction_entries:
  "direction rc 0 = dir_L0 rc" "direction rc 1 = dir_L1 rc" "direction rc 2 = dir_L2 rc"
  "direction rc 3 = dir_L3 rc" "direction rc 4 = dir_L4 rc" "direction rc (Suc 0) = dir_L1 rc"
  by (simp_all add: direction_def coord_tuple_def eval_nat_numeral)

lemma quadrant_bits: "d \<noteq> ANY \<Longrightarrow> (x_bit d = 0 \<or> x_bit d = 1) \<and> (y_bit d = 0 \<or> y_bit d = 1)"
  by (cases d) (simp_all add: x_bit_def y_bit_def)

lemma bit_of_path:
  assumes "a0 = 0 \<or> a0 = 1" "a1 = 0 \<or> a1 = 1" "a2 = 0 \<or> a2 = 1" "a3 = 0 \<or> a3 = 1"
    "a4 = 0 \<or> a4 = (1::int)"
  shows "bit (push_bit 4 a4 + push_bit 3 a3 + push_bit 2 a2 + push_bit 1 a1 + a0) k
     \<longleftrightarrow> (k < 5 \<and> [a0, a1, a2, a3, a4] ! k = 1)"
proof -
  have eq: "push_bit 4 a4 + push_bit 3 a3 + push_bit 2 a2 + push_bit 1 a1 + a0
    = push_bit 4 a4 OR push_bit 3 a3 OR push_bit 2 a2 OR push_bit 1 a1 OR a0"
    using assms by (elim disjE) simp_all
  have b: "\<And>a n. a = 0 \<or> a = (1::int) \<Longrightarrow> bit (push_bit n a) k \<longleftrightarrow> (k = n \<and> a = 1)"
    by (auto simp: bit_push_bit_iff bit_1_iff)
  have b0: "bit a0 k \<longleftrightarrow> (k = 0 \<and> a0 = 1)" using assms(1) by (auto simp: bit_1_iff)
  show ?thesis
    unfolding eq bit_or_iff b [OF assms(5)] b [OF assms(4)] b [OF assms(3)] b [OF assms(2)] b0
    by (auto simp: nth_Cons' dest!: less5_cases)
qed


lemma coordinate_value:
  assumes "ANY \<notin> set (coord_tuple rc)"
  shows "coordinate rc =
    Inr (Coord (\<Sum>k<5. push_bit k (x_bit (direction rc k)))
               (\<Sum>k<5. push_bit k (y_bit (direction rc k))))"
  using level_miss [OF assms]
  by (simp add: coordinate_def sum_lessThan5 direction_entries x_bit_def y_bit_def)

lemma coordinate_bits:
  assumes "ANY \<notin> set (coord_tuple rc)" "k < 5"
  shows "bit (\<Sum>j<5. push_bit j (x_bit (direction rc j))) k \<longleftrightarrow> x_bit (direction rc k) = 1"
    and "bit (\<Sum>j<5. push_bit j (y_bit (direction rc j))) k \<longleftrightarrow> y_bit (direction rc k) = 1"
proof -
  from assms(1) have ne: "dir_L0 rc \<noteq> ANY" "dir_L1 rc \<noteq> ANY" "dir_L2 rc \<noteq> ANY"
    "dir_L3 rc \<noteq> ANY" "dir_L4 rc \<noteq> ANY"
    by (auto simp: coord_tuple_def)
  note q = ne [THEN quadrant_bits]
  have sel: "\<And>f. [f (dir_L0 rc), f (dir_L1 rc), f (dir_L2 rc), f (dir_L3 rc), f (dir_L4 rc)] ! k
      = f (direction rc k)"
    using less5_cases [OF assms(2)] by (auto simp: direction_entries)
  have "bit (\<Sum>j<5. push_bit j (x_bit (direction rc j))) k
      \<longleftrightarrow> (k < 5 \<and> [x_bit (dir_L0 rc), x_bit (dir_L1 rc), x_bit (dir_L2 rc), x_bit (dir_L3 rc),
             x_bit (dir_L4 rc)] ! k = 1)"
    using bit_of_path [of "x_bit (dir_L0 rc)" "x_bit (dir_L1 rc)" "x_bit (dir_L2 rc)"
        "x_bit (dir_L3 rc)" "x_bit (dir_L4 rc)" k] q
    by (simp add: sum_lessThan5 direction_entries add.commute add.left_commute)
  then show "bit (\<Sum>j<5. push_bit j (x_bit (direction rc j))) k \<longleftrightarrow> x_bit (direction rc k) = 1"
    using assms(2) sel [of x_bit] by simp
  have "bit (\<Sum>j<5. push_bit j (y_bit (direction rc j))) k
      \<longleftrightarrow> (k < 5 \<and> [y_bit (dir_L0 rc), y_bit (dir_L1 rc), y_bit (dir_L2 rc), y_bit (dir_L3 rc),
             y_bit (dir_L4 rc)] ! k = 1)"
    using bit_of_path [of "y_bit (dir_L0 rc)" "y_bit (dir_L1 rc)" "y_bit (dir_L2 rc)"
        "y_bit (dir_L3 rc)" "y_bit (dir_L4 rc)" k] q
    by (simp add: sum_lessThan5 direction_entries add.commute add.left_commute)
  then show "bit (\<Sum>j<5. push_bit j (y_bit (direction rc j))) k \<longleftrightarrow> y_bit (direction rc k) = 1"
    using assms(2) sel [of y_bit] by simp
qed

lemma coordinate_fails:
  assumes "ANY \<in> set (coord_tuple rc)"
  shows "coordinate rc = Inl AttributeError"
  using level_above [OF assms] by (auto simp: coordinate_def)

text \<open>
  Claim C4. \<open>coordinate\<close> fails with the error the source raises whenever some entry
  of the path is \<open>ANY\<close>, which is exactly when the level is above \<open>L0\<close>. On a path
  of five quadrant directions it returns the coordinate with
  \<open>x = \<Sum> level = 0..4. x_bit (direction level) << level\<close> and \<open>y\<close> likewise, where
  \<open>direction 4\<close> is the L4 entry and \<open>direction 0\<close> the L0 entry; so bit \<open>k\<close> of
  \<open>x\<close> (of \<open>y\<close>) is the x (the y) quadrant bit of the direction of level \<open>k\<close>, for
  every \<open>k\<close> in 0..4.
\<close>

theorem coordinate_spec:
  "(ANY \<in> set (coord_tuple rc) \<longleftrightarrow> (\<exists>l. level rc = Inr l \<and> level_value l > level_value L0)) \<and>
   (ANY \<in> set (coord_tuple rc) \<longrightarrow> coordinate rc = Inl AttributeError) \<and>
   (ANY \<notin> set (coord_tuple rc) \<longrightarrow>
      (\<exists>c. coordinate rc = Inr c \<and>
         coord_x c = (\<Sum>k<5. push_bit k (x_bit (direction rc k))) \<and>
         coord_y c = (\<Sum>k<5. push_bit k (y_bit (direction rc k))) \<and>
         (\<forall>k<5. (bit (coord_x c) k \<longleftrightarrow> x_bit (direction rc k) = 1) \<and>
                 (bit (coord_y c) k \<longleftrightarrow> y_bit (direction rc k) = 1))))"
proof (intro conjI impI)
  show "ANY \<in> set (coord_tuple rc) \<longleftrightarrow> (\<exists>l. level rc = Inr l \<and> level_value l > level_value L0)"
  proof
    assume "ANY \<in> set (coord_tuple rc)"
    then show "\<exists>l. level rc = Inr l \<and> level_value l > level_value L0" by (rule level_above)
  next
    assume r: "\<exists>l. level rc = Inr l \<and> level_value l > level_value L0"
    show "ANY \<in> set (coord_tuple rc)"
    proof (rule ccontr)
      assume "ANY \<notin> set (coord_tuple rc)"
      then have "level rc = Inr L0" by (rule level_miss)
      with r show False by auto
    qed
  qed
next
  assume "ANY \<in> set (coord_tuple rc)"
  then show "coordinate rc = Inl AttributeError" by (rule coordinate_fails)
next
  assume h: "ANY \<notin> set (coord_tuple rc)"
  show "\<exists>c. coordinate rc = Inr c \<and>
         coord_x c = (\<Sum>k<5. push_bit k (x_bit (direction rc k))) \<and>
         coord_y c = (\<Sum>k<5. push_bit k (y_bit (direction rc k))) \<and>
         (\<forall>k<5. (bit (coord_x c) k \<longleftrightarrow> x_bit (direction rc k) = 1) \<and>
                 (bit (coord_y c) k \<longleftrightarrow> y_bit (direction rc k) = 1))"
    using coordinate_value [OF h] coordinate_bits [OF h] by simp
qed

theorem coordinate_spec_witness:
  "ANY \<notin> set (coord_tuple (RoutingCoord X1Y0 X0Y1 X1Y1 X0Y0 X1Y0)) \<and>
   coordinate (RoutingCoord X1Y0 X0Y1 X1Y1 X0Y0 X1Y0) = Inr (Coord 21 12) \<and>
   ANY \<in> set (coord_tuple (RoutingCoord X1Y0 X0Y1 ANY ANY ANY)) \<and>
   coordinate (RoutingCoord X1Y0 X0Y1 ANY ANY ANY) = Inl AttributeError"
proof -
  let ?full = "RoutingCoord X1Y0 X0Y1 X1Y1 X0Y0 X1Y0"
  let ?partial = "RoutingCoord X1Y0 X0Y1 ANY ANY ANY"
  have no_any: "ANY \<notin> set (coord_tuple ?full)" by (simp add: coord_tuple_def)
  with coordinate_spec [where rc = ?full] obtain c where c: "coordinate ?full = Inr c"
    "coord_x c = (\<Sum>k<5. push_bit k (x_bit (direction ?full k)))"
    "coord_y c = (\<Sum>k<5. push_bit k (y_bit (direction ?full k)))"
    by blast
  from c(2) have "coord_x c = 21"
    by (simp add: sum_lessThan5 direction_entries x_bit_def)
  moreover from c(3) have "coord_y c = 12"
    by (simp add: sum_lessThan5 direction_entries y_bit_def)
  ultimately have "c = Coord 21 12" by (cases c) simp
  with c(1) have full: "coordinate ?full = Inr (Coord 21 12)" by simp
  have some_any: "ANY \<in> set (coord_tuple ?partial)" by (simp add: coord_tuple_def)
  with coordinate_spec [where rc = ?partial] have "coordinate ?partial = Inl AttributeError"
    by blast
  with full no_any some_any show ?thesis by simp
qed

subsection \<open>get_multicast_cores\<close>

lemma bit_test: "drop_bit lx (m::int) AND 1 \<noteq> 0 \<longleftrightarrow> bit m lx"
  by (simp add: bit_iff_odd_drop_bit and_one_eq mod_2_eq_odd)

lemma multicast_round_axes:
  "multicast_round rid (X, Y) k = (candidate_step (rid_x rid) X k, candidate_step (rid_y rid) Y k)"
  by (simp add: multicast_round_def candidate_step_def flip_candidates_def bit_test Let_def)

lemma multicast_loop_axes:
  "foldl (multicast_round rid) (X, Y) ks =
     (foldl (candidate_step (rid_x rid)) X ks, foldl (candidate_step (rid_y rid)) Y ks)"
  by (induction ks arbitrary: X Y) (simp_all add: multicast_round_axes)

lemma get_multicast_cores_product:
  "get_multicast_cores base_coord rid =
     (\<lambda>(x, y). Coord x y) `
       (candidates (coord_x base_coord) (rid_x rid) \<times> candidates (coord_y base_coord) (rid_y rid))"
  by (auto simp: get_multicast_cores_def multicast_loop_axes candidates_def Let_def)

lemma candidate_step_closed:
  assumes "S = {v. \<forall>k. bit (v XOR b) k \<longrightarrow> k < n \<and> bit m k}"
  shows "candidate_step m S n = {v. \<forall>k. bit (v XOR b) k \<longrightarrow> k < Suc n \<and> bit m k}"
proof (cases "bit m n")
  case False
  have "\<And>v k. bit (v XOR b) k \<Longrightarrow> k < Suc n \<and> bit m k \<Longrightarrow> k < n"
    using False by (metis less_Suc_eq)
  with False show ?thesis
    unfolding candidate_step_def assms by (auto simp: less_Suc_eq)
next
  case True
  show ?thesis
  proof (intro set_eqI iffI)
    fix v assume "v \<in> candidate_step m S n"
    with True have "v \<in> S \<or> (\<exists>u\<in>S. v = u XOR 2 ^ n)"
      by (auto simp: candidate_step_def)
    then show "v \<in> {v. \<forall>k. bit (v XOR b) k \<longrightarrow> k < Suc n \<and> bit m k}"
    proof
      assume "v \<in> S" then show ?thesis unfolding assms by (auto simp: less_Suc_eq)
    next
      assume "\<exists>u\<in>S. v = u XOR 2 ^ n"
      then obtain u where u: "u \<in> S" "v = u XOR 2 ^ n" by blast
      show ?thesis
      proof (intro CollectI allI impI)
        fix k assume "bit (v XOR b) k"
        then have "bit (u XOR b) k \<noteq> (k = n)"
          by (auto simp: u(2) bit_xor_iff bit_exp_iff)
        with u(1) True show "k < Suc n \<and> bit m k"
          unfolding assms by (cases "k = n") auto
      qed
    qed
  next
    fix v assume v: "v \<in> {v. \<forall>k. bit (v XOR b) k \<longrightarrow> k < Suc n \<and> bit m k}"
    show "v \<in> candidate_step m S n"
    proof (cases "bit (v XOR b) n")
      case False
      have "v \<in> S" unfolding assms
      proof (intro CollectI allI impI)
        fix k assume k: "bit (v XOR b) k"
        with False have "k \<noteq> n" by auto
        with v k show "k < n \<and> bit m k" by (auto simp: less_Suc_eq)
      qed
      then show ?thesis by (simp add: candidate_step_def)
    next
      case flipped: True
      have "v XOR 2 ^ n \<in> S" unfolding assms
      proof (intro CollectI allI impI)
        fix k assume k: "bit ((v XOR 2 ^ n) XOR b) k"
        then have "bit (v XOR b) k \<noteq> (k = n)" by (auto simp: bit_xor_iff bit_exp_iff)
        with flipped have "k \<noteq> n" "bit (v XOR b) k" by auto
        with v show "k < n \<and> bit m k" by (auto simp: less_Suc_eq)
      qed
      moreover have "v = (v XOR 2 ^ n) XOR 2 ^ n"
        by (simp add: xor.assoc)
      ultimately have "v \<in> (\<lambda>v. v XOR 2 ^ n) ` S" by (rule rev_image_eqI)
      with True show ?thesis by (simp add: candidate_step_def)
    qed
  qed
qed

lemma candidate_loop_closed:
  "foldl (candidate_step m) {b} [0..<n] = {v. \<forall>k. bit (v XOR b) k \<longrightarrow> k < n \<and> bit m k}"
proof (induction n)
  case 0
  have "\<And>v. (\<forall>k. \<not> bit (v XOR b) k) \<longleftrightarrow> v = b"
  proof -
    fix v :: int
    have "(\<forall>k. \<not> bit (v XOR b) k) \<longleftrightarrow> v XOR b = 0"
      by (simp add: bit_eq_iff)
    also have "\<dots> \<longleftrightarrow> v = b"
      by (metis xor_self_eq xor.right_neutral xor.assoc)
    finally show "(\<forall>k. \<not> bit (v XOR b) k) \<longleftrightarrow> v = b" .
  qed
  then show ?case by auto
next
  case (Suc n)
  then show ?case by (simp add: candidate_step_closed)
qed

lemma candidates_closed:
  "candidates b m = {v. \<forall>k. bit (v XOR b) k \<longrightarrow> k < 5 \<and> bit m k}"
  by (simp add: candidates_def candidate_loop_closed)

lemma Coord_in_product:
  "Coord x y \<in> (\<lambda>(x, y). Coord x y) ` (A \<times> B) \<longleftrightarrow> x \<in> A \<and> y \<in> B"
  by force

lemma in_get_multicast_cores:
  "c \<in> get_multicast_cores base_coord rid \<longleftrightarrow>
     (\<forall>k. bit (coord_x c XOR coord_x base_coord) k \<longrightarrow> k < 5 \<and> bit (rid_x rid) k) \<and>
     (\<forall>k. bit (coord_y c XOR coord_y base_coord) k \<longrightarrow> k < 5 \<and> bit (rid_y rid) k)"
proof (cases c)
  case (Coord x y)
  then show ?thesis
    by (simp add: get_multicast_cores_product Coord_in_product candidates_closed)
qed

lemma bit_and_31: "bit (m AND 31) k \<longleftrightarrow> k < 5 \<and> bit (m::int) k"
proof -
  have m: "(mask 5 :: int) = 31" by (simp add: mask_eq_exp_minus_1)
  have "bit (mask 5 :: int) k \<longleftrightarrow> k < 5" by (simp only: bit_mask_iff possible_bit_int simp_thms)
  then have "bit (31 :: int) k \<longleftrightarrow> k < 5" unfolding m .
  then show ?thesis by (simp add: bit_and_iff conj_commute)
qed

text \<open>
  Claim C10. For every base coordinate and every mask \<open>rid\<close>, \<open>get_multicast_cores\<close>
  returns the same set for \<open>rid\<close> and for the mask that keeps only the low 5 bits of
  \<open>rid.x\<close> and of \<open>rid.y\<close>: the loop visits the bit positions 0..4 only, so the
  mask bits at position 5 and above change nothing and never enlarge the result.
\<close>

theorem get_multicast_cores_low_bits:
  "get_multicast_cores base_coord rid =
     get_multicast_cores base_coord (RId (rid_x rid AND 31) (rid_y rid AND 31))"
proof (rule set_eqI)
  fix c
  have "\<And>m v. (\<forall>k. bit (v::int) k \<longrightarrow> k < 5 \<and> bit ((m::int) AND 31) k)
      \<longleftrightarrow> (\<forall>k. bit v k \<longrightarrow> k < 5 \<and> bit m k)"
    by (simp add: bit_and_31)
  then show "c \<in> get_multicast_cores base_coord rid \<longleftrightarrow>
      c \<in> get_multicast_cores base_coord (RId (rid_x rid AND 31) (rid_y rid AND 31))"
    by (simp add: in_get_multicast_cores)
qed

subsection \<open>get_replication_id\<close>

lemma replication_loop:
  "foldl (\<lambda>rid coord. rid_or rid (coord_xor base coord)) (RId ax ay) rest =
     RId (ax OR or_all (map (\<lambda>c. coord_x base XOR coord_x c) rest))
         (ay OR or_all (map (\<lambda>c. coord_y base XOR coord_y c) rest))"
proof (induction rest arbitrary: ax ay)
  case Nil
  show ?case by (simp add: or_all_def)
next
  case (Cons c rest)
  let ?f = "\<lambda>rid coord. rid_or rid (coord_xor base coord)"
  have "foldl ?f (RId ax ay) (c # rest) =
      foldl ?f (RId (ax OR (coord_x base XOR coord_x c)) (ay OR (coord_y base XOR coord_y c))) rest"
    by (simp add: rid_or_def coord_xor_def)
  also have "\<dots> =
      RId ((ax OR (coord_x base XOR coord_x c)) OR or_all (map (\<lambda>c. coord_x base XOR coord_x c) rest))
          ((ay OR (coord_y base XOR coord_y c)) OR or_all (map (\<lambda>c. coord_y base XOR coord_y c) rest))"
    by (rule Cons.IH)
  also have "\<dots> =
      RId (ax OR or_all (map (\<lambda>c. coord_x base XOR coord_x c) (c # rest)))
          (ay OR or_all (map (\<lambda>c. coord_y base XOR coord_y c) (c # rest)))"
    by (simp add: or_all_def or.assoc)
  finally show ?case .
qed

lemma get_replication_id_Cons:
  "get_replication_id (base # rest) = Inr (derive_replication_mask (base # rest))"
proof -
  have "(\<lambda>c. coord_x c XOR coord_x base) = (\<lambda>c. coord_x base XOR coord_x c)"
    and "(\<lambda>c. coord_y c XOR coord_y base) = (\<lambda>c. coord_y base XOR coord_y c)"
    by (simp_all add: xor.commute)
  then show ?thesis
    by (simp add: get_replication_id_def derive_replication_mask_def replication_loop)
qed

lemma bit_or_all: "bit (or_all ms) k \<longleftrightarrow> (\<exists>m\<in>set ms. bit m k)"
  by (induction ms) (simp_all add: or_all_def bit_or_iff)

lemma mask_bits:
  "bit (rid_x (derive_replication_mask coords)) k \<longleftrightarrow>
     (\<exists>c\<in>set (tl coords). bit (coord_x c) k \<noteq> bit (coord_x (hd coords)) k)"
  "bit (rid_y (derive_replication_mask coords)) k \<longleftrightarrow>
     (\<exists>c\<in>set (tl coords). bit (coord_y c) k \<noteq> bit (coord_y (hd coords)) k)"
  by (simp_all add: derive_replication_mask_def bit_or_all bit_xor_iff)

text \<open>
  Claim C3. \<open>get_replication_id\<close> fails if and only if the sequence is empty, and
  then with the error of an index out of range. On a non-empty sequence it returns
  the bitwise OR, over the coordinates after the first, of the per-axis XOR of that
  coordinate with the base \<open>coords[0]\<close>: bit \<open>k\<close> of the mask of an axis is set exactly
  when some later coordinate differs from the base at bit \<open>k\<close> of that axis. A
  one-element sequence gives the zero mask, and \<open>[(0,0), (1,1)]\<close> gives the mask with
  bit 0 set on both axes.
\<close>

theorem get_replication_id_spec:
  "((\<exists>e. get_replication_id coords = Inl e) \<longleftrightarrow> coords = []) \<and>
   get_replication_id [] = Inl IndexError \<and>
   (coords \<noteq> [] \<longrightarrow>
      get_replication_id coords = Inr (derive_replication_mask coords) \<and>
      (\<forall>k. (bit (rid_x (derive_replication_mask coords)) k \<longleftrightarrow>
              (\<exists>c\<in>set (tl coords). bit (coord_x c) k \<noteq> bit (coord_x (hd coords)) k)) \<and>
           (bit (rid_y (derive_replication_mask coords)) k \<longleftrightarrow>
              (\<exists>c\<in>set (tl coords). bit (coord_y c) k \<noteq> bit (coord_y (hd coords)) k)))) \<and>
   get_replication_id [c] = Inr (RId 0 0) \<and>
   get_replication_id [Coord 0 0, Coord 1 1] = Inr (RId 1 1)"
proof (intro conjI impI allI)
  show "(\<exists>e. get_replication_id coords = Inl e) \<longleftrightarrow> coords = []"
    by (cases coords) (simp_all add: get_replication_id_def)
  show "get_replication_id [] = Inl IndexError"
    by (simp add: get_replication_id_def)
  show "get_replication_id [c] = Inr (RId 0 0)"
    by (simp add: get_replication_id_def)
  show "get_replication_id [Coord 0 0, Coord 1 1] = Inr (RId 1 1)"
    by (simp add: get_replication_id_def rid_or_def coord_xor_def)
next
  assume "coords \<noteq> []"
  then show "get_replication_id coords = Inr (derive_replication_mask coords)"
    by (cases coords) (simp_all add: get_replication_id_Cons)
next
  fix k
  show "bit (rid_x (derive_replication_mask coords)) k \<longleftrightarrow>
     (\<exists>c\<in>set (tl coords). bit (coord_x c) k \<noteq> bit (coord_x (hd coords)) k)"
    by (rule mask_bits)
  show "bit (rid_y (derive_replication_mask coords)) k \<longleftrightarrow>
     (\<exists>c\<in>set (tl coords). bit (coord_y c) k \<noteq> bit (coord_y (hd coords)) k)"
    by (rule mask_bits)
qed

theorem get_replication_id_spec_witness:
  "[Coord 5 2, Coord 4 3, Coord 7 2] \<noteq> [] \<and>
   get_replication_id [Coord 5 2, Coord 4 3, Coord 7 2] = Inr (RId 3 1)"
proof -
  have "derive_replication_mask [Coord 5 2, Coord 4 3, Coord 7 2] = RId 3 1"
    by (simp add: derive_replication_mask_def or_all_def)
  with get_replication_id_spec [of "[Coord 5 2, Coord 4 3, Coord 7 2]"] show ?thesis
    by simp
qed

subsection \<open>get_routing_consumption\<close>

lemma n_L0_loop_returns:
  assumes "0 < n"
  shows "\<exists>j. n_L0_loop n_core n = Some (n * 2 ^ j) \<and> n_core \<le> n * 2 ^ j \<and>
           (j = 0 \<or> n * 2 ^ (j - 1) < n_core)"
  using assms
proof (induction "nat (n_core - n)" arbitrary: n rule: less_induct)
  case less
  show ?case
  proof (cases "n < n_core")
    case False
    then have "n_L0_loop n_core n = Some (n * 2 ^ 0) \<and> n_core \<le> n * 2 ^ 0"
      by (subst n_L0_loop.simps) simp
    then show ?thesis by blast
  next
    case True
    with less.prems have "nat (n_core - 2 * n) < nat (n_core - n)" "0 < 2 * n" by simp_all
    from less.hyps [OF this] obtain j where j:
      "n_L0_loop n_core (2 * n) = Some (2 * n * 2 ^ j)" "n_core \<le> 2 * n * 2 ^ j"
      "j = 0 \<or> 2 * n * 2 ^ (j - 1) < n_core" by blast
    have "n_L0_loop n_core n = n_L0_loop n_core (2 * n)"
      using True by (subst n_L0_loop.simps) (simp add: push_bit_eq_mult mult.commute)
    with j(1) have "n_L0_loop n_core n = Some (n * 2 ^ Suc j)" by simp
    moreover from j(2) have "n_core \<le> n * 2 ^ Suc j" by simp
    moreover have "n * 2 ^ (Suc j - 1) < n_core"
    proof (cases j)
      case 0
      with True show ?thesis by simp
    next
      case (Suc i)
      with j(3) show ?thesis by simp
    qed
    ultimately show ?thesis by blast
  qed
qed

lemma n_L0_required_returns:
  "\<exists>j. n_L0_required n_core = Some (2 ^ j) \<and> n_core \<le> 2 ^ j \<and>
         (\<forall>i::nat. n_core \<le> 2 ^ i \<longrightarrow> (2::int) ^ j \<le> 2 ^ i)"
proof -
  from n_L0_loop_returns [of 1 n_core] obtain j where j:
    "n_L0_loop n_core 1 = Some (2 ^ j)" "n_core \<le> 2 ^ j" "j = 0 \<or> 2 ^ (j - 1) < n_core"
    by auto
  have "\<forall>i::nat. n_core \<le> 2 ^ i \<longrightarrow> (2::int) ^ j \<le> 2 ^ i"
  proof (intro allI impI)
    fix i :: nat assume i: "n_core \<le> 2 ^ i"
    show "(2::int) ^ j \<le> 2 ^ i"
    proof (cases j)
      case 0
      then show ?thesis by simp
    next
      case (Suc j')
      with j(3) have "2 ^ j' < n_core" by simp
      with i have "(2::int) ^ j' < 2 ^ i" by linarith
      then have "Suc j' \<le> i" by (simp add: power_strict_increasing_iff)
      then have "(2::int) ^ Suc j' \<le> 2 ^ i" by (rule power_increasing) simp
      with Suc show ?thesis by simp
    qed
  qed
  with j(1,2) show ?thesis unfolding n_L0_required_def by blast
qed

lemma n_next_nonzero:
  "F \<noteq> 0 \<Longrightarrow> n_next F n = Inr (if n < F then 1 else n div F)"
  by (simp add: n_next_def py_floordiv_def)

lemma get_routing_consumption_returns:
  assumes "F \<noteq> 0"
  shows "\<exists>c. get_routing_consumption F n_core = Some (Inr c) \<and>
           n_L0_required n_core = Some (n_L0 c) \<and>
           n_L1 c = (if n_L0 c < F then 1 else n_L0 c div F) \<and>
           n_L2 c = (if n_L1 c < F then 1 else n_L1 c div F) \<and>
           n_L3 c = (if n_L2 c < F then 1 else n_L2 c div F) \<and>
           n_L4 c = (if n_L3 c < F then 1 else n_L3 c div F)"
proof -
  from n_L0_required_returns [of n_core] obtain c0 where "n_L0_required n_core = Some c0"
    by blast
  then show ?thesis
    by (simp add: get_routing_consumption_def n_next_nonzero [OF assms])
qed

lemma n_L0_required_examples:
  "n_L0_required 1 = Some 1" "n_L0_required 5 = Some 8" "n_L0_required 8 = Some 8"
  "n_L0_required 20 = Some 32" "n_L0_required 32 = Some 32" "n_L0_required 33 = Some 64"
  by (simp_all add: n_L0_required_def n_L0_loop.simps)

text \<open>
  Claim C7. With a branching factor (\<open>HwParams.N_SUB_ROUTING_NODE\<close>) that is not
  zero (the spec gives it as positive), \<open>get_routing_consumption\<close> returns for
  every integer \<open>n_core\<close>, and the field
  \<open>n_L0\<close> of its result is the smallest power of two that is at least \<open>n_core\<close>:
  it is a power of two, it is at least \<open>n_core\<close>, and no power of two that is at
  least \<open>n_core\<close> is smaller. For \<open>n_core\<close> in 1, 5, 8, 20, 32, 33 it is 1, 8, 8,
  32, 32, 64.
\<close>

theorem n_L0_spec:
  assumes "F \<noteq> 0"
  shows "(\<exists>c. get_routing_consumption F n_core = Some (Inr c) \<and>
           n_L0_required n_core = Some (n_L0 c) \<and>
           (\<exists>j::nat. n_L0 c = 2 ^ j) \<and> n_core \<le> n_L0 c \<and>
           (\<forall>i::nat. n_core \<le> 2 ^ i \<longrightarrow> n_L0 c \<le> 2 ^ i)) \<and>
         map n_L0_required [1, 5, 8, 20, 32, 33] = map Some [1, 8, 8, 32, 32, 64]"
proof (rule conjI)
  from get_routing_consumption_returns [OF assms, of n_core] obtain c where
    c: "get_routing_consumption F n_core = Some (Inr c)" "n_L0_required n_core = Some (n_L0 c)"
    by blast
  from n_L0_required_returns [of n_core] c(2) obtain j where
    "n_L0 c = 2 ^ j" "n_core \<le> 2 ^ j" "\<forall>i::nat. n_core \<le> 2 ^ i \<longrightarrow> (2::int) ^ j \<le> 2 ^ i"
    by auto
  with c show "\<exists>c. get_routing_consumption F n_core = Some (Inr c) \<and>
           n_L0_required n_core = Some (n_L0 c) \<and>
           (\<exists>j::nat. n_L0 c = 2 ^ j) \<and> n_core \<le> n_L0 c \<and>
           (\<forall>i::nat. n_core \<le> 2 ^ i \<longrightarrow> n_L0 c \<le> 2 ^ i)"
    by auto
  show "map n_L0_required [1, 5, 8, 20, 32, 33] = map Some [1, 8, 8, 32, 32, 64]"
    by (simp add: n_L0_required_examples)
qed

theorem n_L0_spec_witness:
  "(4::int) \<noteq> 0 \<and> get_routing_consumption 4 20 = Some (Inr (RoutingCost 32 8 2 1 1))"
proof -
  have nonzero: "(4::int) \<noteq> 0" by simp
  from n_L0_spec [OF nonzero, of 20] obtain c where
    c: "get_routing_consumption 4 20 = Some (Inr c)" "n_L0_required 20 = Some (n_L0 c)"
    by blast
  from c(2) have "n_L0 c = 32" by (simp add: n_L0_required_examples)
  with c(1) have "get_routing_consumption 4 20 = Some (Inr (RoutingCost 32 8 2 1 1))"
    by (cases c) (auto simp: get_routing_consumption_def n_next_def py_floordiv_def
        split: option.splits sum.splits if_splits)
  with nonzero show ?thesis by simp
qed

text \<open>
  Claim C8. With a branching factor \<open>F\<close> that is not zero (the spec gives it as
  positive), for every \<open>n_core\<close> and every level \<open>L\<close> from 1 to 4, taken in
  increasing order, the field \<open>n_L\<close> of the result of
  \<open>get_routing_consumption\<close> is 1 if the count of the level below is strictly less
  than \<open>F\<close>, and that count divided by \<open>F\<close> (integer division) otherwise.
\<close>

theorem n_level_spec:
  assumes "F \<noteq> 0"
  shows "\<exists>c. get_routing_consumption F n_core = Some (Inr c) \<and>
           n_L1 c = (if n_L0 c < F then 1 else n_L0 c div F) \<and>
           n_L2 c = (if n_L1 c < F then 1 else n_L1 c div F) \<and>
           n_L3 c = (if n_L2 c < F then 1 else n_L2 c div F) \<and>
           n_L4 c = (if n_L3 c < F then 1 else n_L3 c div F)"
  using get_routing_consumption_returns [OF assms, of n_core] by blast

theorem n_level_spec_witness:
  "(4::int) \<noteq> 0 \<and>
   (\<exists>c. get_routing_consumption 4 33 = Some (Inr c) \<and> n_L0 c = 64 \<and> n_L1 c = 16 \<and>
        n_L2 c = 4 \<and> n_L3 c = 1 \<and> n_L4 c = 1)"
proof -
  have nonzero: "(4::int) \<noteq> 0" by simp
  from n_level_spec [OF nonzero, of 33] obtain c where
    c: "get_routing_consumption 4 33 = Some (Inr c)"
      "n_L1 c = (if n_L0 c < 4 then 1 else n_L0 c div 4)"
      "n_L2 c = (if n_L1 c < 4 then 1 else n_L1 c div 4)"
      "n_L3 c = (if n_L2 c < 4 then 1 else n_L2 c div 4)"
      "n_L4 c = (if n_L3 c < 4 then 1 else n_L3 c div 4)"
    by blast
  from c(1) have "n_L0 c = 64"
    by (auto simp: get_routing_consumption_def n_L0_required_examples
        split: sum.splits)
  with c show ?thesis by simp
qed

subsection \<open>The candidate sets of get_multicast_cores\<close>

lemma candidate_loop_finite: "finite (foldl (candidate_step m) {b} [0..<n])"
  by (induction n) (simp_all add: candidate_step_def)

lemma flip_inj: "inj_on (\<lambda>v::int. v XOR c) S"
proof (rule inj_onI)
  fix v w :: int assume "v XOR c = w XOR c"
  then have "(v XOR c) XOR c = (w XOR c) XOR c" by simp
  then show "v = w" by (simp add: xor.assoc)
qed

lemma candidate_loop_card:
  "card (foldl (candidate_step m) {b} [0..<n]) = 2 ^ card {k. k < n \<and> bit m k}"
proof (induction n)
  case 0
  show ?case by simp
next
  case (Suc n)
  let ?S = "foldl (candidate_step m) {b} [0..<n]"
  let ?K = "{k. k < n \<and> bit m k}"
  have fin: "finite ?S" by (rule candidate_loop_finite)
  have closed: "?S = {v. \<forall>k. bit (v XOR b) k \<longrightarrow> k < n \<and> bit m k}"
    by (rule candidate_loop_closed)
  show ?case
  proof (cases "bit m n")
    case False
    then have "{k. k < Suc n \<and> bit m k} = ?K"
      by (auto simp: less_Suc_eq)
    with False Suc show ?thesis by (simp add: candidate_step_def)
  next
    case True
    have same: "\<And>u. u \<in> ?S \<Longrightarrow> \<not> bit (u XOR b) n"
      unfolding closed by auto
    have "?S \<inter> (\<lambda>v. v XOR 2 ^ n) ` ?S = {}"
    proof (rule ccontr)
      assume "?S \<inter> (\<lambda>v. v XOR 2 ^ n) ` ?S \<noteq> {}"
      then obtain u w where uw: "u \<in> ?S" "w \<in> ?S" "u = w XOR 2 ^ n" by blast
      from same [OF uw(2)] have "bit ((w XOR 2 ^ n) XOR b) n"
        by (simp add: bit_xor_iff bit_exp_iff)
      with same [OF uw(1)] uw(3) show False by simp
    qed
    then have un: "card (?S \<union> (\<lambda>v. v XOR 2 ^ n) ` ?S) = card ?S + card ((\<lambda>v. v XOR 2 ^ n) ` ?S)"
      using fin by (simp add: card_Un_disjoint)
    have im: "card ((\<lambda>v. v XOR 2 ^ n) ` ?S) = card ?S"
      by (rule card_image) (rule flip_inj)
    have step: "candidate_step m ?S n = ?S \<union> (\<lambda>v. v XOR 2 ^ n) ` ?S"
      using True by (simp only: candidate_step_def if_True)
    have double: "card (candidate_step m ?S n) = 2 * card ?S"
      by (simp only: step un im mult_2)
    have "{k. k < Suc n \<and> bit m k} = insert n ?K"
      using True by (auto simp: less_Suc_eq)
    moreover have "finite ?K" "n \<notin> ?K" by simp_all
    ultimately have "card {k. k < Suc n \<and> bit m k} = Suc (card ?K)" by simp
    with double Suc show ?thesis by simp
  qed
qed

text \<open>
  Claim C2. For every base coordinate and mask, \<open>get_multicast_cores\<close> returns exactly
  the cartesian product of the x-candidate set and the y-candidate set, where the
  candidate set of an axis starts as the base's value and, for each bit position \<open>k\<close>
  in 0..4 that is set in the mask of the axis, adds \<open>v XOR (1 << k)\<close> for every
  candidate \<open>v\<close> it holds; each such round doubles the set, so it ends with
  \<open>2 ^ n\<close> candidates for \<open>n\<close> mask bits set among the positions 0..4. With base
  \<open>(0,0)\<close>, the mask with only x bit 0 set gives \<open>{(0,0), (1,0)}\<close>, and the mask with
  bit 0 set on both axes gives \<open>{(0,0), (0,1), (1,0), (1,1)}\<close>.
\<close>

theorem get_multicast_cores_spec:
  "get_multicast_cores base_coord rid =
     (\<lambda>(x, y). Coord x y) `
       (candidates (coord_x base_coord) (rid_x rid) \<times> candidates (coord_y base_coord) (rid_y rid)) \<and>
   card (candidates b m) = 2 ^ card {k. k < 5 \<and> bit m k} \<and>
   get_multicast_cores (Coord 0 0) (RId 1 0) = {Coord 0 0, Coord 1 0} \<and>
   get_multicast_cores (Coord 0 0) (RId 1 1) = {Coord 0 0, Coord 0 1, Coord 1 0, Coord 1 1}"
proof (intro conjI)
  show "get_multicast_cores base_coord rid =
     (\<lambda>(x, y). Coord x y) `
       (candidates (coord_x base_coord) (rid_x rid) \<times> candidates (coord_y base_coord) (rid_y rid))"
    by (rule get_multicast_cores_product)
  show "card (candidates b m) = 2 ^ card {k. k < 5 \<and> bit m k}"
    unfolding candidates_def by (rule candidate_loop_card)
  show "get_multicast_cores (Coord 0 0) (RId 1 0) = {Coord 0 0, Coord 1 0}"
    by code_simp
  show "get_multicast_cores (Coord 0 0) (RId 1 1) = {Coord 0 0, Coord 0 1, Coord 1 0, Coord 1 1}"
    by code_simp
qed

subsection \<open>Expanding the mask of a sequence of coordinates\<close>












text \<open>
  The condition on the high bits holds in the coordinate space of five bits per axis:
  two values in 0..31 agree on all bits at position 5 and above.
\<close>

lemma drop_bit_5_in_range:
  "0 \<le> u \<Longrightarrow> u < 32 \<Longrightarrow> 0 \<le> w \<Longrightarrow> w < 32 \<Longrightarrow> drop_bit 5 (u::int) = drop_bit 5 w"
  by (simp add: drop_bit_eq_div)

text \<open>
  The alignment of the block is needed for the equality: the block of the two
  coordinates \<open>(1, 0)\<close> and \<open>(2, 0)\<close> has sides 2 and 1 and starts at \<open>x = 1\<close>; its
  mask is \<open>(3, 0)\<close>, and the expansion has four coordinates.
\<close>

lemma unaligned_block_expansion:
  "set [Coord 1 0, Coord 2 0] = block 1 0 1 0 \<and>
   get_replication_id [Coord 1 0, Coord 2 0] = Inr (RId 3 0) \<and>
   get_multicast_cores (Coord 1 0) (RId 3 0) = {Coord 0 0, Coord 1 0, Coord 2 0, Coord 3 0}"
  by code_simp

end
